theory Spec2Isabelle
  imports Main "HOL-Library.Multiset" "HOL-Library.List_Lexorder" "HOL-Library.Product_Lexorder"
begin

section \<open>Text\<close>

text \<open>
  A Python \<open>str\<close> is a sequence of Unicode code points. A code point is modelled by its
  number, a text by the list of its code points; the order on texts (the one of
  \<open>HOL-Library.List_Lexorder\<close>) is then Python's order on \<open>str\<close>: lexicographic by code
  point, a proper prefix first.
\<close>

type_synonym codepoint = nat
type_synonym pystr = "codepoint list"

definition str :: "string \<Rightarrow> pystr" where
  "str cs = map of_char cs"

section \<open>The part of Python's \<open>re\<close> module that the script uses\<close>

text \<open>
  The two patterns of the script, \<open>\x1b\[[0-9;]*m\<close> and \<open>\w+\<close>, are sequences of
  single-character nodes (a literal, or a set \<open>[...]\<close> of literals, ranges and categories),
  each taken once or under a greedy repetition with a lower bound and no upper bound
  (\<open>*\<close> is \<open>MAX_REPEAT 0\<close>, \<open>+\<close> is \<open>MAX_REPEAT 1\<close>). The names are those of the parsed
  pattern in \<open>sre_parse\<close>.
\<close>

datatype setitem =
    LITERAL codepoint
  | RANGE codepoint codepoint
  | CATEGORY "codepoint \<Rightarrow> bool"

datatype single =
    Lit codepoint
  | IN "setitem list"

datatype node =
    Once single
  | MAX_REPEAT nat single

type_synonym pattern = "node list"

fun setitem_ok :: "setitem \<Rightarrow> codepoint \<Rightarrow> bool" where
  "setitem_ok (LITERAL a) c = (c = a)"
| "setitem_ok (RANGE lo hi) c = (lo \<le> c \<and> c \<le> hi)"
| "setitem_ok (CATEGORY f) c = f c"

fun single_ok :: "single \<Rightarrow> codepoint \<Rightarrow> bool" where
  "single_ok (Lit a) c = (c = a)"
| "single_ok (IN items) c = list_ex (\<lambda>i. setitem_ok i c) items"

text \<open>
  \<open>max_repeat lo ok k s\<close> is the greedy repetition of the backtracking matcher: it takes
  one more character whenever it can, and only when the rest of the pattern (the
  continuation \<open>k\<close>) then fails does it give that character back. It may stop only once
  the lower bound \<open>lo\<close> is used up. The result is the number of characters matched.
\<close>

fun max_repeat ::
  "nat \<Rightarrow> (codepoint \<Rightarrow> bool) \<Rightarrow> (pystr \<Rightarrow> nat option) \<Rightarrow> pystr \<Rightarrow> nat option" where
  "max_repeat lo ok k [] = (if lo = 0 then k [] else None)"
| "max_repeat lo ok k (c # cs) =
     (if ok c then
        (case max_repeat (lo - 1) ok k cs of
           Some n \<Rightarrow> Some (Suc n)
         | None \<Rightarrow> if lo = 0 then k (c # cs) else None)
      else if lo = 0 then k (c # cs) else None)"

text \<open>
  \<open>re_match p s\<close>: the match of \<open>p\<close> anchored at the start of \<open>s\<close>, as the length of the
  matched prefix, or \<open>None\<close>.
\<close>

primrec re_match :: "pattern \<Rightarrow> pystr \<Rightarrow> nat option" where
  "re_match [] = (\<lambda>s. Some 0)"
| "re_match (n # p) =
     (case n of
        Once a \<Rightarrow>
          (\<lambda>s. case s of
                 [] \<Rightarrow> None
               | c # cs \<Rightarrow> if single_ok a c then map_option Suc (re_match p cs) else None)
      | MAX_REPEAT lo a \<Rightarrow> max_repeat lo (single_ok a) (re_match p))"

text \<open>
  \<open>pattern.sub(repl, string)\<close> for a replacement without group references, and
  \<open>re.findall(pattern, string)\<close> for a pattern without groups. Both scan from the left;
  where the pattern matches they consume the match, elsewhere they step over one
  character. An empty match consumes nothing, so the scan steps over the next character
  after it.
\<close>

function re_sub :: "pattern \<Rightarrow> pystr \<Rightarrow> pystr \<Rightarrow> pystr" where
  "re_sub p repl [] = (case re_match p [] of None \<Rightarrow> [] | Some _ \<Rightarrow> repl)"
| "re_sub p repl (c # cs) =
     (case re_match p (c # cs) of
        None \<Rightarrow> c # re_sub p repl cs
      | Some 0 \<Rightarrow> repl @ c # re_sub p repl cs
      | Some (Suc n) \<Rightarrow> repl @ re_sub p repl (drop n cs))"
  by pat_completeness auto
termination
  by (relation "measure (\<lambda>(p, repl, s). length s)") auto

function re_findall :: "pattern \<Rightarrow> pystr \<Rightarrow> pystr list" where
  "re_findall p [] = (case re_match p [] of None \<Rightarrow> [] | Some _ \<Rightarrow> [[]])"
| "re_findall p (c # cs) =
     (case re_match p (c # cs) of
        None \<Rightarrow> re_findall p cs
      | Some 0 \<Rightarrow> [] # re_findall p cs
      | Some (Suc n) \<Rightarrow> (c # take n cs) # re_findall p (drop n cs))"
  by pat_completeness auto
termination
  by (relation "measure (\<lambda>(p, s). length s)") auto

section \<open>The script\<close>

subsection \<open>\<open>strip_ansi\<close>\<close>

text \<open>\<open>ANSI_ESCAPE = re.compile(r'\x1b\[[0-9;]*m')\<close>\<close>

definition ANSI_ESCAPE :: pattern where
  "ANSI_ESCAPE =
     [Once (Lit 27), Once (Lit 91), MAX_REPEAT 0 (IN [RANGE 48 57, LITERAL 59]), Once (Lit 109)]"

definition strip_ansi :: "pystr \<Rightarrow> pystr" where
  "strip_ansi txt = re_sub ANSI_ESCAPE [] txt"

subsection \<open>\<open>extract_tokens\<close>\<close>

text \<open>
  \<open>\w\<close> in a \<open>str\<close> pattern is the underscore and every code point that is alphanumeric
  in the Unicode database of the Python runtime. Below 128 these are the ASCII letters
  and digits; the database's verdict on the other code points is the parameter \<open>uni\<close>.
\<close>

definition category_word :: "(codepoint \<Rightarrow> bool) \<Rightarrow> codepoint \<Rightarrow> bool" where
  "category_word uni c =
     (if c < 128 then
        (48 \<le> c \<and> c \<le> 57) \<or> (65 \<le> c \<and> c \<le> 90) \<or> (97 \<le> c \<and> c \<le> 122) \<or> c = 95
      else uni c)"

text \<open>\<open>r'\w+'\<close>\<close>

definition WORD :: "(codepoint \<Rightarrow> bool) \<Rightarrow> pattern" where
  "WORD uni = [MAX_REPEAT 1 (IN [CATEGORY (category_word uni)])]"

text \<open>
  \<open>Counter(tokens)\<close> counts the tokens from left to right: a token not yet in the table
  enters it, behind the others, with count \<open>0 + 1\<close>; a token already there has its count
  incremented in place. The table is an association list in insertion order, the order
  in which \<open>counter.items()\<close> yields it.
\<close>

type_synonym counter = "(pystr \<times> int) list"

fun counter_add :: "counter \<Rightarrow> pystr \<Rightarrow> counter" where
  "counter_add [] t = [(t, 0 + 1)]"
| "counter_add ((k, c) # kvs) t =
     (if k = t then (k, c + 1) # kvs else (k, c) # counter_add kvs t)"

definition Counter :: "pystr list \<Rightarrow> counter" where
  "Counter ts = foldl counter_add [] ts"

text \<open>
  What is found at a path that exists. \<open>Path.exists\<close> holds for a directory as well as
  for a file, but \<open>open\<close> of a directory raises \<open>IsADirectoryError\<close>, and \<open>open\<close> or \<open>read\<close> of
  a file that may not be read raises too (\<open>PermissionError\<close>, or another \<open>OSError\<close>). The
  text of a regular file is what \<open>f.read()\<close> returns, already decoded (with
  \<open>errors='replace'\<close> the decoding never fails).
\<close>

datatype exn = IsADirectoryError | PermissionError | UnicodeEncodeError | OSError

datatype fsnode = RegularFile pystr | Directory | Unreadable exn

definition tokens_of :: "(codepoint \<Rightarrow> bool) \<Rightarrow> pystr \<Rightarrow> pystr list" where
  "tokens_of uni content = re_findall (WORD uni) (strip_ansi content)"

fun extract_tokens :: "(codepoint \<Rightarrow> bool) \<Rightarrow> fsnode \<Rightarrow> exn + counter" where
  "extract_tokens uni Directory = Inl IsADirectoryError"
| "extract_tokens uni (Unreadable e) = Inl e"
| "extract_tokens uni (RegularFile content) = Inr (Counter (tokens_of uni content))"

subsection \<open>\<open>main\<close>\<close>

text \<open>\<open>sorted(counter.items(), key=lambda x: (-x[1], x[0]))\<close>; \<open>sort_key\<close> is stable, as \<open>sorted\<close> is.\<close>

definition sorted_items :: "counter \<Rightarrow> (pystr \<times> int) list" where
  "sorted_items counter = sort_key (\<lambda>x. (- snd x, fst x)) counter"

text \<open>
  \<open>str(n)\<close> of an integer and the format \<open>{n:4d}\<close>: the decimal digits, a minus sign before
  them for a negative number, and spaces on the left up to the width.
\<close>

function digits :: "nat \<Rightarrow> pystr" where
  "digits n = (if n < 10 then [48 + n] else digits (n div 10) @ [48 + n mod 10])"
  by pat_completeness auto
termination
  by (relation "measure id") auto

declare digits.simps [simp del]

definition str_int :: "int \<Rightarrow> pystr" where
  "str_int i = (if i < 0 then 45 # digits (nat (- i)) else digits (nat i))"

definition format_d :: "nat \<Rightarrow> int \<Rightarrow> pystr" where
  "format_d width i = replicate (width - length (str_int i)) 32 @ str_int i"

text \<open>
  What a run of the script sees and changes: whether \<open>samples_dir\<close> exists, what is at
  \<open>samples/B.txt\<close> if the path exists, the document in \<open>samples/tokens-audit.json\<close> if the
  file is there, the exception that opening this file for writing raises, if it does
  (\<open>IsADirectoryError\<close> when the path is a directory, \<open>PermissionError\<close> when the file or
  the directory may not be written), for every text the exception that printing it
  raises, if it does (\<open>UnicodeEncodeError\<close> when the encoding of standard output has no
  code for one of its characters), and the characters written to standard output so
  far. The two paths name two different files. The output file holds a JSON document;
  \<open>json.dump(output, f, indent=2)\<close> writes the document \<open>output\<close>, a function of the
  document alone.
\<close>

datatype json =
    JInt int
  | JStr pystr
  | JObject "(string \<times> json) list"
  | JArray "json list"

record world =
  samples_exists :: bool
  b_txt :: "fsnode option"
  tokens_audit :: "json option"
  output_refused :: "exn option"
  print_raises :: "pystr \<Rightarrow> exn option"
  stdout :: pystr

text \<open>
  The paths as the f-strings print them; they depend on where the script lies.
  \<open>filepath.name\<close> is \<open>B.txt\<close> wherever that is.
\<close>

record paths =
  samples_dir :: pystr
  filepath :: pystr
  output_file :: pystr

text \<open>
  A statement either ends normally, with a value, or raises an exception; both ways it
  leaves a world behind. Nothing in the script catches an exception, so the statements
  after the one that raises are not run.
\<close>

type_synonym 'a io = "world \<Rightarrow> (exn + 'a) \<times> world"

definition io_return :: "'a \<Rightarrow> 'a io" where
  "io_return x w = (Inr x, w)"

definition io_of :: "exn + 'a \<Rightarrow> 'a io" where
  "io_of r w = (r, w)"

definition io_bind :: "'a io \<Rightarrow> ('a \<Rightarrow> 'b io) \<Rightarrow> 'b io" where
  "io_bind m f w = (case m w of (Inl e, w') \<Rightarrow> (Inl e, w') | (Inr x, w') \<Rightarrow> f x w')"

definition print :: "pystr \<Rightarrow> unit io" where
  "print s w =
     (case print_raises w s of
        Some e \<Rightarrow> (Inl e, w)
      | None \<Rightarrow> (Inr (), w\<lparr>stdout := stdout w @ s @ [10]\<rparr>))"

text \<open>\<open>f"{count:4d}x  {token}"\<close>, and the loop that prints one such line for each item.\<close>

definition report_line :: "pystr \<times> int \<Rightarrow> pystr" where
  "report_line x = format_d 4 (snd x) @ str ''x  '' @ fst x"

fun print_items :: "(pystr \<times> int) list \<Rightarrow> unit io" where
  "print_items [] w = (Inr (), w)"
| "print_items (x # xs) w =
     (case print (report_line x) w of
        (Inl e, w') \<Rightarrow> (Inl e, w')
      | (Inr _, w') \<Rightarrow> print_items xs w')"

definition output_record :: "(pystr \<times> int) list \<Rightarrow> json" where
  "output_record items =
     JArray (map (\<lambda>x. JObject [(''token'', JStr (fst x)), (''count'', JInt (snd x))]) items)"

text \<open>\<open>with open(output_file, 'w') as f: json.dump(output, f, indent=2)\<close>\<close>

definition json_dump :: "json \<Rightarrow> unit io" where
  "json_dump doc w =
     (case output_refused w of
        Some e \<Rightarrow> (Inl e, w)
      | None \<Rightarrow> (Inr (), w\<lparr>tokens_audit := Some doc\<rparr>))"

text \<open>\<open>main\<close> returns 1 or 0, or an exception of \<open>open\<close> or \<open>print\<close> leaves it.\<close>

definition main :: "(codepoint \<Rightarrow> bool) \<Rightarrow> paths \<Rightarrow> world \<Rightarrow> (exn + int) \<times> world" where
  "main uni p w =
     (if \<not> samples_exists w then
        io_bind (print (str ''Error: samples directory not found at '' @ samples_dir p))
          (\<lambda>_. io_return 1) w
      else
        (case b_txt w of
           None \<Rightarrow>
             io_bind (print (str ''Error: '' @ filepath p @ str '' not found''))
               (\<lambda>_. io_return 1) w
         | Some file \<Rightarrow>
             io_bind (print (str ''Extracting tokens from B.txt...'' @ [10])) (\<lambda>_.
             io_bind (io_of (extract_tokens uni file)) (\<lambda>counter.
             let items = sorted_items counter in
             io_bind (print (str ''Found '' @ str_int (int (length counter))
                             @ str '' unique tokens'' @ [10])) (\<lambda>_.
             io_bind (print_items items) (\<lambda>_.
             io_bind (json_dump (output_record items)) (\<lambda>_.
             io_bind (print (10 # str ''Full token list written to '' @ output_file p)) (\<lambda>_.
             io_return 0)))))) w))"


section \<open>Notions of the specification\<close>

text \<open>The characters of the parameters of an SGR sequence: the digits and \<open>;\<close>.\<close>

definition sgr_param :: "codepoint \<Rightarrow> bool" where
  "sgr_param c = ((48 \<le> c \<and> c \<le> 57) \<or> c = 59)"

text \<open>
  A string is an SGR sequence when it is the introducer, ESC (27) and \<open>[\<close> (91), then zero
  or more parameter characters, then \<open>m\<close> (109). \<open>sgr_at s i n\<close>: the substring of \<open>s\<close> of
  length \<open>n\<close> at position \<open>i\<close> is one; \<open>in_sgr s j\<close>: position \<open>j\<close> of \<open>s\<close> lies in a substring
  that is one; \<open>contains_sgr s\<close>: some substring of \<open>s\<close> is one.
\<close>

definition sgr_sequence :: "pystr \<Rightarrow> bool" where
  "sgr_sequence m =
     (case m of
        a # b # r \<Rightarrow> a = 27 \<and> b = 91 \<and> r \<noteq> [] \<and> last r = 109 \<and> list_all sgr_param (butlast r)
      | _ \<Rightarrow> False)"

definition sgr_at :: "pystr \<Rightarrow> nat \<Rightarrow> nat \<Rightarrow> bool" where
  "sgr_at s i n = (i + n \<le> length s \<and> sgr_sequence (take n (drop i s)))"

definition in_sgr :: "pystr \<Rightarrow> nat \<Rightarrow> bool" where
  "in_sgr s j =
     list_ex (\<lambda>i. list_ex (\<lambda>n. j < i + n \<and> sgr_at s i n) [0..<Suc (length s)]) [0..<Suc j]"

definition contains_sgr :: "pystr \<Rightarrow> bool" where
  "contains_sgr s =
     list_ex (\<lambda>i. list_ex (\<lambda>n. sgr_at s i n) [0..<Suc (length s)]) [0..<Suc (length s)]"

text \<open>
  \<open>run_at P s i n\<close>: the substring of \<open>s\<close> of length \<open>n\<close> at position \<open>i\<close> is a maximal run
  of \<open>P\<close>-characters: it is not empty, all its characters satisfy \<open>P\<close>, and neither the
  character before it nor the one after it, where there is one, does. \<open>word_runs P s\<close>
  are all of them, by position. A run can only start at a \<open>run_start\<close>.
\<close>

definition run_at :: "(codepoint \<Rightarrow> bool) \<Rightarrow> pystr \<Rightarrow> nat \<Rightarrow> nat \<Rightarrow> bool" where
  "run_at P s i n =
     (0 < n \<and> i + n \<le> length s \<and> list_all P (take n (drop i s))
      \<and> (i = 0 \<or> \<not> P (s ! (i - 1)))
      \<and> (i + n = length s \<or> \<not> P (s ! (i + n))))"

definition word_runs :: "(codepoint \<Rightarrow> bool) \<Rightarrow> pystr \<Rightarrow> pystr list" where
  "word_runs P s =
     [take n (drop i s). i \<leftarrow> [0..<length s], n \<leftarrow> [1..<Suc (length s - i)], run_at P s i n]"

definition run_start :: "(codepoint \<Rightarrow> bool) \<Rightarrow> pystr \<Rightarrow> nat \<Rightarrow> bool" where
  "run_start P s i = (P (s ! i) \<and> (i = 0 \<or> \<not> P (s ! (i - 1))))"

text \<open>
  \<open>io_outcome m w r out doc\<close>: whatever standard output and the output file held before,
  from \<open>w\<close> the statement \<open>m\<close> ends with \<open>r\<close>, having printed \<open>out\<close> and, when \<open>doc\<close> is
  not \<open>None\<close>, having written that document to the output file; nothing else changes.
\<close>

definition io_outcome :: "'a io \<Rightarrow> world \<Rightarrow> exn + 'a \<Rightarrow> pystr \<Rightarrow> json option \<Rightarrow> bool" where
  "io_outcome m w r out doc =
     (\<forall>s0 a0. m (w\<lparr>stdout := s0, tokens_audit := a0\<rparr>) =
        (r, w\<lparr>stdout := s0 @ out,
              tokens_audit := (case doc of None \<Rightarrow> a0 | Some d \<Rightarrow> Some d)\<rparr>))"

text \<open>What a run that leads from \<open>w\<close> to \<open>w'\<close> has printed.\<close>

definition printed :: "world \<Rightarrow> world \<Rightarrow> pystr" where
  "printed w w' = drop (length (stdout w)) (stdout w')"

text \<open>Paths and a start for the runs that the theorems below are tried on.\<close>

definition ex_paths :: paths where
  "ex_paths = \<lparr>samples_dir = str ''samples'', filepath = str ''samples/B.txt'',
     output_file = str ''samples/tokens-audit.json''\<rparr>"

definition ex_world :: "fsnode option \<Rightarrow> world" where
  "ex_world f =
     \<lparr>samples_exists = True, b_txt = f, tokens_audit = None, output_refused = None,
      print_raises = (\<lambda>s. None), stdout = []\<rparr>"

text \<open>A standard output that is encoded in ASCII.\<close>

definition ascii_only :: "pystr \<Rightarrow> exn option" where
  "ascii_only s = (if list_all (\<lambda>c. c < 128) s then None else Some UnicodeEncodeError)"

section \<open>The two patterns\<close>

declare re_sub.simps [simp del] re_findall.simps [simp del]

lemma max_repeat_0_total:
  "max_repeat 0 ok (\<lambda>s. Some 0) s = Some (length (takeWhile ok s))"
  by (induction s) auto

lemma max_repeat_1_total:
  "max_repeat (Suc 0) ok (\<lambda>s. Some 0) s =
     (case s of [] \<Rightarrow> None
      | c # cs \<Rightarrow> if ok c then Some (Suc (length (takeWhile ok cs))) else None)"
  by (cases s) (auto simp: max_repeat_0_total)

lemma single_ok_word: "single_ok (IN [CATEGORY P]) = P"
  by (rule ext) simp

lemma re_match_WORD:
  "re_match (WORD uni) s =
     (case s of [] \<Rightarrow> None
      | c # cs \<Rightarrow> if category_word uni c
                 then Some (Suc (length (takeWhile (category_word uni) cs))) else None)"
  by (simp add: WORD_def single_ok_word max_repeat_1_total)

lemma re_findall_WORD_Nil: "re_findall (WORD uni) [] = []"
  by (simp add: re_findall.simps re_match_WORD)

lemma re_findall_WORD_Cons:
  "re_findall (WORD uni) (c # cs) =
     (if category_word uni c
      then (c # takeWhile (category_word uni) cs)
           # re_findall (WORD uni) (dropWhile (category_word uni) cs)
      else re_findall (WORD uni) cs)"
  by (simp add: re_findall.simps re_match_WORD takeWhile_eq_take [symmetric]
      dropWhile_eq_drop [symmetric])


lemma re_findall_WORD_nonempty:
  "t \<in> set (re_findall (WORD uni) s) \<Longrightarrow> t \<noteq> []"
proof (induction s rule: length_induct)
  case (1 s)
  show ?case
  proof (cases s)
    case Nil
    with 1 show ?thesis by (simp add: re_findall_WORD_Nil)
  next
    case (Cons c cs)
    have "length (dropWhile (category_word uni) cs) < length s"
      using Cons by (simp add: length_dropWhile_le le_imp_less_Suc)
    with 1 Cons show ?thesis
      by (auto simp: re_findall_WORD_Cons split: if_splits)
  qed
qed

lemma max_repeat_0_failing:
  assumes "\<And>c cs. ok c \<Longrightarrow> k (c # cs) = None"
  shows "max_repeat 0 ok k s = map_option (\<lambda>n. length (takeWhile ok s) + n) (k (dropWhile ok s))"
  by (induction s) (auto simp: assms option.map_ident split: option.splits)

lemma single_ok_param: "single_ok (IN [RANGE 48 57, LITERAL 59]) = sgr_param"
  by (rule ext) (simp add: sgr_param_def)

lemma re_match_ANSI_ESCAPE:
  "re_match ANSI_ESCAPE s =
     (case s of
        a # b # r \<Rightarrow>
          (if a = 27 \<and> b = 91 then
             (case dropWhile sgr_param r of
                [] \<Rightarrow> None
              | d # _ \<Rightarrow> if d = 109 then Some (Suc (Suc (Suc (length (takeWhile sgr_param r))))) else None)
           else None)
      | _ \<Rightarrow> None)"
proof -
  let ?k = "re_match [Once (Lit 109)]"
  have k: "?k (c # cs) = None" if "sgr_param c" for c cs
    using that by (auto simp: sgr_param_def)
  have rest: "max_repeat 0 sgr_param ?k r =
      (case dropWhile sgr_param r of
         [] \<Rightarrow> None
       | d # _ \<Rightarrow> if d = 109 then Some (Suc (length (takeWhile sgr_param r))) else None)" for r
  proof -
    have step: "max_repeat 0 sgr_param ?k r =
        map_option (\<lambda>n. length (takeWhile sgr_param r) + n) (?k (dropWhile sgr_param r))"
      by (rule max_repeat_0_failing) (rule k)
    have kval: "?k d = (case d of [] \<Rightarrow> None | c # _ \<Rightarrow> if c = 109 then Some (Suc 0) else None)"
      for d by (cases d) simp_all
    show ?thesis
      unfolding step kval
      by (cases "dropWhile sgr_param r") (simp_all del: dropWhile_eq_Nil_conv)
  qed
  have "re_match ANSI_ESCAPE s =
      (case s of
         a # b # r \<Rightarrow>
           if a = 27 \<and> b = 91 then map_option (\<lambda>n. Suc (Suc n)) (max_repeat 0 sgr_param ?k r)
           else None
       | _ \<Rightarrow> None)"
    unfolding ANSI_ESCAPE_def
    by (simp add: single_ok_param option.map_comp comp_def del: max_repeat.simps
        split: list.splits)
  then show ?thesis
    unfolding rest
    by (simp add: option.map_comp comp_def del: re_match.simps
        split: list.split del: dropWhile_eq_Nil_conv)
qed

section \<open>\<open>strip_ansi\<close> removes the SGR sequences\<close>

lemma sgr_sequence_iff:
  "sgr_sequence m \<longleftrightarrow> (\<exists>ps. m = 27 # 91 # ps @ [109] \<and> list_all sgr_param ps)"
proof
  assume "sgr_sequence m"
  then obtain r where m: "m = 27 # 91 # r" and r: "r \<noteq> []" "last r = 109"
    "list_all sgr_param (butlast r)"
    by (auto simp: sgr_sequence_def split: list.splits)
  from r(1,2) have "r = butlast r @ [109]"
    by (metis append_butlast_last_id)
  with m r(3) show "\<exists>ps. m = 27 # 91 # ps @ [109] \<and> list_all sgr_param ps"
    by blast
next
  assume "\<exists>ps. m = 27 # 91 # ps @ [109] \<and> list_all sgr_param ps"
  then show "sgr_sequence m"
    by (auto simp: sgr_sequence_def)
qed

lemma sgr_param_109 [simp]: "\<not> sgr_param 109"
  by (simp add: sgr_param_def)

lemma sgr_param_27 [simp]: "\<not> sgr_param 27"
  by (simp add: sgr_param_def)

text \<open>An SGR sequence at the start of a string\<close>

lemma sgr_at_0_iff:
  "sgr_at s 0 n \<longleftrightarrow>
   (\<exists>ps rest. s = 27 # 91 # ps @ 109 # rest \<and> list_all sgr_param ps \<and> n = length ps + 3)"
proof
  assume "sgr_at s 0 n"
  then have n: "n \<le> length s" and "sgr_sequence (take n s)"
    by (simp_all add: sgr_at_def)
  then obtain ps where ps: "take n s = 27 # 91 # ps @ [109]" "list_all sgr_param ps"
    by (auto simp: sgr_sequence_iff)
  have "s = take n s @ drop n s"
    by simp
  with ps have "s = 27 # 91 # ps @ 109 # drop n s"
    by simp
  moreover have "n = length ps + 3"
  proof -
    have "length (take n s) = n"
      using n by simp
    moreover have "length (take n s) = length ps + 3"
      by (simp add: ps(1))
    ultimately show ?thesis
      by simp
  qed
  ultimately show "\<exists>ps rest. s = 27 # 91 # ps @ 109 # rest \<and> list_all sgr_param ps \<and> n = length ps + 3"
    using ps(2) by blast
next
  assume "\<exists>ps rest. s = 27 # 91 # ps @ 109 # rest \<and> list_all sgr_param ps \<and> n = length ps + 3"
  then obtain ps rest where s: "s = 27 # 91 # ps @ 109 # rest" and ps: "list_all sgr_param ps"
    and n: "n = length ps + 3"
    by blast
  have "take n s = 27 # 91 # ps @ [109]"
    by (simp add: s n numeral_3_eq_3)
  with ps have "sgr_sequence (take n s)"
    by (auto simp: sgr_sequence_iff)
  moreover have "n \<le> length s"
    by (simp add: s n)
  ultimately show "sgr_at s 0 n"
    by (simp add: sgr_at_def)
qed

lemma re_match_ANSI_ESCAPE_iff:
  "re_match ANSI_ESCAPE s = Some n \<longleftrightarrow> sgr_at s 0 n"
proof
  assume m: "re_match ANSI_ESCAPE s = Some n"
  then obtain r rest where s: "s = 27 # 91 # r" and d: "dropWhile sgr_param r = 109 # rest"
    and n: "n = Suc (Suc (Suc (length (takeWhile sgr_param r))))"
    by (auto simp: re_match_ANSI_ESCAPE split: list.splits if_splits simp del: dropWhile_eq_Nil_conv)
  have "r = takeWhile sgr_param r @ dropWhile sgr_param r"
    by simp
  with d have "r = takeWhile sgr_param r @ 109 # rest"
    by simp
  with s have "s = 27 # 91 # takeWhile sgr_param r @ 109 # rest"
    by simp
  moreover have "list_all sgr_param (takeWhile sgr_param r)"
    by (simp add: list_all_iff) (meson set_takeWhileD)
  ultimately show "sgr_at s 0 n"
    unfolding sgr_at_0_iff using n by (simp add: numeral_3_eq_3) blast
next
  assume "sgr_at s 0 n"
  then obtain ps rest where s: "s = 27 # 91 # ps @ 109 # rest" and ps: "list_all sgr_param ps"
    and n: "n = length ps + 3"
    unfolding sgr_at_0_iff by blast
  from ps have "takeWhile sgr_param (ps @ 109 # rest) = ps"
    "dropWhile sgr_param (ps @ 109 # rest) = 109 # rest"
    by (simp_all add: list_all_iff takeWhile_append2 dropWhile_append2)
  then show "re_match ANSI_ESCAPE s = Some n"
    by (simp add: re_match_ANSI_ESCAPE s n del: dropWhile_eq_Nil_conv)
qed


lemma nths_eq_map_filter:
  "nths xs A = map ((!) xs) (filter (\<lambda>j. j \<in> A) [0..<length xs])"
proof -
  have "zip xs [0..<length xs] = map (\<lambda>i. (xs ! i, i)) [0..<length xs]"
    by (rule nth_equalityI) simp_all
  then show ?thesis
    by (simp add: nths_def filter_map comp_def)
qed

lemma sgr_at_length: "sgr_at s i n \<Longrightarrow> 3 \<le> n \<and> i + n \<le> length s"
proof -
  assume a: "sgr_at s i n"
  then obtain ps where "take n (drop i s) = 27 # 91 # ps @ [109]"
    by (auto simp: sgr_at_def sgr_sequence_iff)
  then have "length (take n (drop i s)) = length ps + 3"
    by simp
  then have "3 \<le> n"
    by simp
  with a show ?thesis
    by (simp add: sgr_at_def)
qed

lemma in_sgr_iff: "in_sgr s j \<longleftrightarrow> (\<exists>i n. i \<le> j \<and> j < i + n \<and> sgr_at s i n)"
proof
  assume "in_sgr s j"
  then obtain i n where "i \<in> set [0..<Suc j]" and "j < i + n \<and> sgr_at s i n"
    unfolding in_sgr_def list_ex_iff by blast
  moreover from this have "i \<le> j"
    by auto
  ultimately show "\<exists>i n. i \<le> j \<and> j < i + n \<and> sgr_at s i n"
    by blast
next
  assume "\<exists>i n. i \<le> j \<and> j < i + n \<and> sgr_at s i n"
  then obtain i n where a: "i \<le> j" "j < i + n \<and> sgr_at s i n"
    by blast
  then have "n \<le> length s"
    using sgr_at_length [of s i n] by simp
  with a(1) have "i \<in> set [0..<Suc j]" "n \<in> set [0..<Suc (length s)]"
    by auto
  with a(2) show "in_sgr s j"
    unfolding in_sgr_def list_ex_iff by blast
qed

lemma contains_sgr_iff: "contains_sgr s \<longleftrightarrow> (\<exists>i n. sgr_at s i n)"
proof
  assume "contains_sgr s"
  then show "\<exists>i n. sgr_at s i n"
    unfolding contains_sgr_def list_ex_iff by blast
next
  assume "\<exists>i n. sgr_at s i n"
  then obtain i n where a: "sgr_at s i n"
    by blast
  then have "i \<le> length s" "n \<le> length s"
    using sgr_at_length [of s i n] by simp_all
  then have "i \<in> set [0..<Suc (length s)]" "n \<in> set [0..<Suc (length s)]"
    by auto
  with a show "contains_sgr s"
    unfolding contains_sgr_def list_ex_iff by blast
qed

lemma sgr_at_Cons: "sgr_at (c # cs) (Suc i) n \<longleftrightarrow> sgr_at cs i n"
  by (simp add: sgr_at_def)

lemma sgr_at_append: "sgr_at (xs @ ys) (length xs + i) n \<longleftrightarrow> sgr_at ys i n"
  by (simp add: sgr_at_def)

lemma sgr_at_drop: "sgr_at s i n \<longleftrightarrow> sgr_at (drop i s) 0 n"
  by (cases "i \<le> length s") (auto simp: sgr_at_def sgr_sequence_def)

lemma sgr_at_unique: "sgr_at s i n \<Longrightarrow> sgr_at s i n' \<Longrightarrow> n = n'"
  by (metis sgr_at_drop re_match_ANSI_ESCAPE_iff option.inject)

lemma sgr_at_start: "sgr_at s i n \<Longrightarrow> i < length s \<and> s ! i = 27"
proof -
  assume a: "sgr_at s i n"
  then obtain ps where t: "take n (drop i s) = 27 # 91 # ps @ [109]"
    by (auto simp: sgr_at_def sgr_sequence_iff)
  from a have l: "3 \<le> n" "i + n \<le> length s"
    using sgr_at_length by blast+
  then have "take n (drop i s) ! 0 = s ! i"
    by simp
  with t l show ?thesis
    by simp
qed

lemma sgr_at_inside: "sgr_at s i n \<Longrightarrow> i < k \<Longrightarrow> k < i + n \<Longrightarrow> s ! k \<noteq> 27"
proof -
  assume a: "sgr_at s i n" and k: "i < k" "k < i + n"
  then obtain ps where t: "take n (drop i s) = 27 # 91 # ps @ [109]" and ps: "list_all sgr_param ps"
    by (auto simp: sgr_at_def sgr_sequence_iff)
  from a have l: "3 \<le> n" "i + n \<le> length s"
    using sgr_at_length by blast+
  have "length (take n (drop i s)) = n"
    using l by simp
  moreover have "length (take n (drop i s)) = length ps + 3"
    by (simp add: t)
  ultimately have n: "n = length ps + 3"
    by simp
  define d where "d = k - Suc i"
  with k have d: "k = i + Suc d" "Suc d < n"
    by simp_all
  have "s ! k = take n (drop i s) ! Suc d"
    using d l by simp
  also have "\<dots> = (91 # ps @ [109]) ! d"
    by (simp add: t)
  also have "\<dots> \<noteq> 27"
  proof (cases d)
    case 0
    then show ?thesis by simp
  next
    case (Suc e)
    show ?thesis
    proof (cases "e < length ps")
      case True
      with ps have "sgr_param (ps ! e)"
        by (simp add: list_all_length)
      with True Suc show ?thesis
        by (auto simp: nth_append)
    next
      case False
      with d n Suc have "e = length ps"
        by simp
      with Suc show ?thesis
        by (simp add: nth_append)
    qed
  qed
  finally show ?thesis .
qed


lemma no_match_not_in_sgr_0:
  assumes "re_match ANSI_ESCAPE s = None"
  shows "\<not> in_sgr s 0"
proof
  assume "in_sgr s 0"
  then obtain n where "sgr_at s 0 n"
    by (auto simp: in_sgr_iff)
  with assms show False
    by (simp add: re_match_ANSI_ESCAPE_iff [symmetric])
qed

lemma no_match_in_sgr_Suc:
  assumes "re_match ANSI_ESCAPE (c # cs) = None"
  shows "in_sgr (c # cs) (Suc j) \<longleftrightarrow> in_sgr cs j"
proof
  assume "in_sgr (c # cs) (Suc j)"
  then obtain i n where i: "i \<le> Suc j" "Suc j < i + n" "sgr_at (c # cs) i n"
    by (auto simp: in_sgr_iff)
  have "i \<noteq> 0"
  proof
    assume "i = 0"
    with i(3) have "re_match ANSI_ESCAPE (c # cs) = Some n"
      by (simp add: re_match_ANSI_ESCAPE_iff)
    with assms show False
      by simp
  qed
  then obtain i' where "i = Suc i'"
    by (cases i) simp_all
  with i show "in_sgr cs j"
    unfolding in_sgr_iff by (auto simp: sgr_at_Cons)
next
  assume "in_sgr cs j"
  then obtain i n where "i \<le> j" "j < i + n" "sgr_at cs i n"
    by (auto simp: in_sgr_iff)
  then have "Suc i \<le> Suc j" "Suc j < Suc i + n" "sgr_at (c # cs) (Suc i) n"
    by (simp_all add: sgr_at_Cons)
  then show "in_sgr (c # cs) (Suc j)"
    unfolding in_sgr_iff by blast
qed

lemma match_in_sgr_inside:
  assumes "re_match ANSI_ESCAPE s = Some m" and "j < m"
  shows "in_sgr s j"
proof -
  from assms(1) have "sgr_at s 0 m"
    by (simp add: re_match_ANSI_ESCAPE_iff)
  with assms(2) show ?thesis
    unfolding in_sgr_iff by (intro exI [of _ 0] exI [of _ m]) simp
qed

lemma match_in_sgr_after:
  assumes "re_match ANSI_ESCAPE s = Some m"
  shows "in_sgr s (j + m) \<longleftrightarrow> in_sgr (drop m s) j"
proof -
  from assms have m: "sgr_at s 0 m"
    by (simp add: re_match_ANSI_ESCAPE_iff)
  then have len: "m \<le> length s"
    using sgr_at_length [of s 0 m] by simp
  have shift: "sgr_at s (m + i) n \<longleftrightarrow> sgr_at (drop m s) i n" for i n
    using sgr_at_append [of "take m s" "drop m s" i n] len by simp
  show ?thesis
  proof
    assume "in_sgr s (j + m)"
    then obtain i n where i: "i \<le> j + m" "j + m < i + n" "sgr_at s i n"
      by (auto simp: in_sgr_iff)
    have "m \<le> i"
    proof (rule ccontr)
      assume "\<not> m \<le> i"
      then have "i < m" by simp
      show False
      proof (cases "i = 0")
        case True
        with i(3) m have "n = m"
          by (auto dest: sgr_at_unique)
        with True i(2) show False by simp
      next
        case False
        with \<open>i < m\<close> have "s ! i \<noteq> 27"
          using sgr_at_inside [OF m, of i] by simp
        with i(3) show False
          by (auto dest: sgr_at_start)
      qed
    qed
    then obtain i' where i': "i = m + i'"
      by (auto simp: le_iff_add)
    with i have "i' \<le> j" "j < i' + n" "sgr_at (drop m s) i' n"
      by (simp_all add: shift)
    then show "in_sgr (drop m s) j"
      unfolding in_sgr_iff by blast
  next
    assume "in_sgr (drop m s) j"
    then obtain i n where "i \<le> j" "j < i + n" "sgr_at (drop m s) i n"
      by (auto simp: in_sgr_iff)
    then have "m + i \<le> j + m" "j + m < (m + i) + n" "sgr_at s (m + i) n"
      by (simp_all add: shift)
    then show "in_sgr s (j + m)"
      unfolding in_sgr_iff by blast
  qed
qed

lemma nths_none: "(\<And>j. j < length xs \<Longrightarrow> j \<notin> A) \<Longrightarrow> nths xs A = []"
  by (simp add: nths_eq_map_filter filter_empty_conv)

lemma strip_ansi_nths: "strip_ansi s = nths s {j. \<not> in_sgr s j}"
proof (induction s rule: length_induct)
  case (1 s)
  show ?case
  proof (cases s)
    case Nil
    then show ?thesis
      by (simp add: strip_ansi_def re_sub.simps re_match_ANSI_ESCAPE)
  next
    case (Cons c cs)
    show ?thesis
    proof (cases "re_match ANSI_ESCAPE s")
      case None
      from 1 Cons have "strip_ansi cs = nths cs {j. \<not> in_sgr cs j}"
        by simp
      moreover from None Cons have "strip_ansi s = c # strip_ansi cs"
        by (simp add: strip_ansi_def re_sub.simps)
      moreover from None Cons have "nths s {j. \<not> in_sgr s j} = c # nths cs {j. \<not> in_sgr cs j}"
        using no_match_not_in_sgr_0 [of s] no_match_in_sgr_Suc [of c cs]
        by (simp add: nths_Cons)
      ultimately show ?thesis
        by simp
    next
      case (Some m)
      then have m: "sgr_at s 0 m"
        by (simp add: re_match_ANSI_ESCAPE_iff)
      then have len: "3 \<le> m" "m \<le> length s"
        using sgr_at_length [of s 0 m] by simp_all
      then obtain n where n: "m = Suc n"
        by (cases m) simp_all
      from Some Cons n have "strip_ansi s = strip_ansi (drop m s)"
        by (simp add: strip_ansi_def re_sub.simps)
      also from 1 len have "\<dots> = nths (drop m s) {j. \<not> in_sgr (drop m s) j}"
        by simp
      also have "\<dots> = nths (take m s @ drop m s) {j. \<not> in_sgr s j}"
      proof -
        have "nths (take m s) {j. \<not> in_sgr s j} = []"
          using match_in_sgr_inside [OF Some] by (intro nths_none) simp
        moreover have "{j. j + length (take m s) \<in> {j. \<not> in_sgr s j}} = {j. \<not> in_sgr (drop m s) j}"
          using match_in_sgr_after [OF Some] len by simp
        ultimately show ?thesis
          by (simp only: nths_append append_Nil)
      qed
      finally show ?thesis
        by simp
    qed
  qed
qed

lemma length_strip_ansi: "length (strip_ansi s) = card {j. j < length s \<and> \<not> in_sgr s j}"
  by (simp add: strip_ansi_nths length_nths)

lemma length_strip_ansi_le: "length (strip_ansi s) \<le> length s"
proof -
  have "card {j. j < length s \<and> \<not> in_sgr s j} \<le> card {..<length s}"
    by (rule card_mono) auto
  then show ?thesis
    by (simp add: length_strip_ansi)
qed

lemma length_strip_ansi_eq: "length (strip_ansi s) = length s \<longleftrightarrow> \<not> contains_sgr s"
proof -
  have "card {j. j < length s \<and> \<not> in_sgr s j} = card {..<length s}
      \<longleftrightarrow> {j. j < length s \<and> \<not> in_sgr s j} = {..<length s}"
    by (intro iffI card_subset_eq) auto
  also have "\<dots> \<longleftrightarrow> (\<forall>j<length s. \<not> in_sgr s j)"
    by auto
  also have "\<dots> \<longleftrightarrow> \<not> contains_sgr s"
  proof
    assume a: "\<forall>j<length s. \<not> in_sgr s j"
    show "\<not> contains_sgr s"
    proof
      assume "contains_sgr s"
      then obtain i n where "sgr_at s i n"
        by (auto simp: contains_sgr_iff)
      then have "i < length s" "i \<le> i \<and> i < i + n \<and> sgr_at s i n"
        using sgr_at_length [of s i n] by simp_all
      then have "i < length s" "in_sgr s i"
        unfolding in_sgr_iff by blast+
      with a show False by blast
    qed
  next
    assume "\<not> contains_sgr s"
    then show "\<forall>j<length s. \<not> in_sgr s j"
      by (auto simp: contains_sgr_iff in_sgr_iff)
  qed
  finally show ?thesis
    by (simp add: length_strip_ansi)
qed

text \<open>
  C1. For every input, \<open>strip_ansi\<close> removes exactly the substrings that are SGR sequences:
  the result is the characters of the input at the positions that lie in no such
  substring, in their order.
\<close>

theorem strip_ansi_removes_sgr:
  "strip_ansi s = map ((!) s) (filter (\<lambda>j. \<not> in_sgr s j) [0..<length s])"
  by (simp add: strip_ansi_nths nths_eq_map_filter)

theorem strip_ansi_removes_sgr_witness:
  "strip_ansi (str ''a'' @ 27 # str ''[1;31mb'' @ 27 # str ''[c'') = str ''ab'' @ 27 # str ''[c''"
proof -
  have "map ((!) (str ''a'' @ 27 # str ''[1;31mb'' @ 27 # str ''[c''))
      (filter (\<lambda>j. \<not> in_sgr (str ''a'' @ 27 # str ''[1;31mb'' @ 27 # str ''[c'') j)
        [0..<length (str ''a'' @ 27 # str ''[1;31mb'' @ 27 # str ''[c'')])
      = str ''ab'' @ 27 # str ''[c''"
    by code_simp
  with strip_ansi_removes_sgr [of "str ''a'' @ 27 # str ''[1;31mb'' @ 27 # str ''[c''"]
  show ?thesis
    by (rule trans)
qed

text \<open>
  The sequences removed are those of the input. Where a removal joins its two
  neighbours, the result can hold an SGR sequence of its own, so \<open>strip_ansi\<close> is not
  idempotent.
\<close>

lemma strip_ansi_joins:
  "strip_ansi [27, 91, 27, 91, 48, 109, 109] = [27, 91, 109]
   \<and> contains_sgr (strip_ansi [27, 91, 27, 91, 48, 109, 109])
   \<and> strip_ansi (strip_ansi [27, 91, 27, 91, 48, 109, 109]) = []"
  by code_simp

text \<open>
  C9. \<open>strip_ansi\<close> never lengthens its input, and keeps its length exactly when no
  substring of the input is an SGR sequence.
\<close>

theorem strip_ansi_length:
  "length (strip_ansi s) \<le> length s
   \<and> (length (strip_ansi s) = length s \<longleftrightarrow> \<not> contains_sgr s)"
  by (simp add: length_strip_ansi_le length_strip_ansi_eq)

theorem strip_ansi_length_witness:
  "length (strip_ansi (27 # str ''[0mok'')) \<le> length (27 # str ''[0mok'')
   \<and> contains_sgr (27 # str ''[0mok'')
   \<and> length (strip_ansi (27 # str ''[0mok'')) < length (27 # str ''[0mok'')
   \<and> length (strip_ansi (27 # str ''[0 ok'')) = length (27 # str ''[0 ok'')"
proof -
  have 1: "contains_sgr (27 # str ''[0mok'')"
    by code_simp
  have 2: "\<not> contains_sgr (27 # str ''[0 ok'')"
    by code_simp
  from strip_ansi_length [of "27 # str ''[0mok''"] strip_ansi_length [of "27 # str ''[0 ok''"] 1 2
  show ?thesis
    by (simp add: order.strict_iff_order)
qed

section \<open>The tokens are the maximal runs of word characters\<close>

lemma filter_eq_upt: "filter (\<lambda>n. n = k) [a..<b] = (if a \<le> k \<and> k < b then [k] else [])"
  by (induction b) auto

lemma prefix_all_iff:
  assumes "n \<le> length d"
  shows "list_all P (take n d) \<and> (n = length d \<or> \<not> P (d ! n)) \<longleftrightarrow> n = length (takeWhile P d)"
proof
  assume a: "list_all P (take n d) \<and> (n = length d \<or> \<not> P (d ! n))"
  have "P (d ! i)" if "i < n" for i
  proof -
    from that assms have "take n d ! i = d ! i" "i < length (take n d)"
      by simp_all
    with a show ?thesis
      by (metis list_all_length)
  qed
  then have le: "n \<le> length (takeWhile P d)"
    using assms by (rule length_takeWhile_less_P_nth)
  have "\<not> n < length (takeWhile P d)"
  proof
    assume l: "n < length (takeWhile P d)"
    then have "takeWhile P d ! n \<in> set (takeWhile P d)"
      by simp
    then have "P (takeWhile P d ! n)"
      by (rule set_takeWhileD [THEN conjunct2])
    with l have "P (d ! n)"
      by (simp add: takeWhile_nth)
    moreover from l have "n < length d"
      using length_takeWhile_le [of P d] by simp
    ultimately show False
      using a by simp
  qed
  with le show "n = length (takeWhile P d)"
    by simp
next
  assume n: "n = length (takeWhile P d)"
  have "take n d = takeWhile P d"
    by (simp add: n takeWhile_eq_take [symmetric])
  then have "list_all P (take n d)"
    by (simp add: list_all_iff) (meson set_takeWhileD)
  moreover have "n = length d \<or> \<not> P (d ! n)"
    using nth_length_takeWhile [of P d] length_takeWhile_le [of P d] n
    by (cases "n < length d") simp_all
  ultimately show "list_all P (take n d) \<and> (n = length d \<or> \<not> P (d ! n))"
    by simp
qed


lemma concat_map_if:
  "concat (map (\<lambda>x. if Q x then [f x] else []) xs) = map f (filter Q xs)"
  by (induction xs) simp_all

lemma run_all_iff:
  assumes "i + n \<le> length s"
  shows "list_all P (take n (drop i s)) \<and> (i + n = length s \<or> \<not> P (s ! (i + n)))
    \<longleftrightarrow> n = length (takeWhile P (drop i s))"
proof -
  have 1: "n \<le> length (drop i s)"
    using assms by simp
  have 2: "(n = length (drop i s)) = (i + n = length s)"
    using assms by auto
  have 3: "drop i s ! n = s ! (i + n)"
    using assms by simp
  from prefix_all_iff [OF 1, of P] show ?thesis
    unfolding 2 3 .
qed

lemma takeWhile_drop:
  assumes "i < length s"
  shows "takeWhile P (drop i s) =
    (if P (s ! i) then s ! i # takeWhile P (drop (Suc i) s) else [])"
proof -
  have "drop i s = s ! i # drop (Suc i) s"
    using assms by (simp add: Cons_nth_drop_Suc)
  then have "takeWhile P (drop i s) = takeWhile P (s ! i # drop (Suc i) s)"
    by (rule arg_cong)
  then show ?thesis
    by simp
qed

lemma run_at_iff:
  assumes "i < length s" and "0 < n" and "n \<le> length s - i"
  shows "run_at P s i n \<longleftrightarrow> run_start P s i \<and> n = length (takeWhile P (drop i s))"
proof -
  from assms have le: "i + n \<le> length s"
    by simp
  have "run_at P s i n \<longleftrightarrow>
      (i = 0 \<or> \<not> P (s ! (i - 1)))
      \<and> (list_all P (take n (drop i s)) \<and> (i + n = length s \<or> \<not> P (s ! (i + n))))"
    unfolding run_at_def using assms(2) le by blast
  also have "\<dots> \<longleftrightarrow> (i = 0 \<or> \<not> P (s ! (i - 1))) \<and> n = length (takeWhile P (drop i s))"
    by (simp only: run_all_iff [OF le])
  also have "\<dots> \<longleftrightarrow> run_start P s i \<and> n = length (takeWhile P (drop i s))"
  proof -
    have "P (s ! i)" if "n = length (takeWhile P (drop i s))"
    proof (rule ccontr)
      assume "\<not> P (s ! i)"
      then have "takeWhile P (drop i s) = []"
        by (simp add: takeWhile_drop [OF assms(1)])
      with that assms(2) show False
        by simp
    qed
    then show ?thesis
      unfolding run_start_def by blast
  qed
  finally show ?thesis .
qed

lemma runs_from:
  assumes "i < length s"
  shows "[take n (drop i s). n \<leftarrow> [1..<Suc (length s - i)], run_at P s i n] =
     (if run_start P s i then [takeWhile P (drop i s)] else [])"
proof -
  let ?d = "drop i s"
  let ?k = "length (takeWhile P ?d)"
  have "[take n ?d. n \<leftarrow> [1..<Suc (length s - i)], run_at P s i n] =
      map (\<lambda>n. take n ?d) (filter (\<lambda>n. run_at P s i n) [1..<Suc (length s - i)])"
    by (rule concat_map_if)
  also have "filter (\<lambda>n. run_at P s i n) [1..<Suc (length s - i)] =
      filter (\<lambda>n. run_start P s i \<and> n = ?k) [1..<Suc (length s - i)]"
  proof (rule filter_cong [OF refl])
    fix n
    assume "n \<in> set [1..<Suc (length s - i)]"
    then have "0 < n" "n \<le> length s - i"
      by auto
    then show "run_at P s i n = (run_start P s i \<and> n = ?k)"
      by (rule run_at_iff [OF assms])
  qed
  also have "\<dots> = (if run_start P s i then [?k] else [])"
  proof (cases "run_start P s i")
    case True
    then have "P (s ! i)"
      by (simp add: run_start_def)
    then have "1 \<le> ?k"
      by (simp add: takeWhile_drop [OF assms])
    moreover have "?k < Suc (length s - i)"
      using length_takeWhile_le [of P ?d] by simp
    ultimately show ?thesis
      using True by (simp add: filter_eq_upt)
  next
    case False
    then show ?thesis
      by simp
  qed
  finally show ?thesis
    by (simp add: takeWhile_eq_take [symmetric])
qed


lemma word_runs_starts:
  "word_runs P s =
     concat (map (\<lambda>i. if run_start P s i then [takeWhile P (drop i s)] else []) [0..<length s])"
proof -
  have "map (\<lambda>i. [take n (drop i s). n \<leftarrow> [1..<Suc (length s - i)], run_at P s i n]) [0..<length s] =
      map (\<lambda>i. if run_start P s i then [takeWhile P (drop i s)] else []) [0..<length s]"
  proof (rule map_cong [OF refl])
    fix i
    assume "i \<in> set [0..<length s]"
    then have "i < length s"
      by simp
    then show "[take n (drop i s). n \<leftarrow> [1..<Suc (length s - i)], run_at P s i n] =
        (if run_start P s i then [takeWhile P (drop i s)] else [])"
      by (rule runs_from)
  qed
  then show ?thesis
    unfolding word_runs_def by (rule arg_cong)
qed

lemma scan_runs:
  "concat (map (\<lambda>i. if run_start (category_word uni) (pre @ suf) i
                      then [takeWhile (category_word uni) (drop i (pre @ suf))] else [])
      [length pre..<length pre + length suf]) =
   (if pre \<noteq> [] \<and> category_word uni (last pre)
    then re_findall (WORD uni) (dropWhile (category_word uni) suf)
    else re_findall (WORD uni) suf)"
proof (induction suf arbitrary: pre)
  case Nil
  then show ?case
    by (simp add: re_findall_WORD_Nil)
next
  case (Cons c cs)
  let ?P = "category_word uni"
  have upt: "[length pre..<length pre + length (c # cs)] =
      length pre # [length (pre @ [c])..<length (pre @ [c]) + length cs]"
    by (simp add: upt_rec)
  have start: "run_start ?P (pre @ c # cs) (length pre) \<longleftrightarrow>
      ?P c \<and> \<not> (pre \<noteq> [] \<and> ?P (last pre))"
    by (cases pre rule: rev_cases) (simp_all add: run_start_def nth_append)
  have eq: "(pre @ [c]) @ cs = pre @ c # cs"
    by simp
  have ne: "(pre @ [c] \<noteq> [] \<and> ?P (last (pre @ [c]))) = ?P c"
    by simp
  have rest: "concat (map (\<lambda>i. if run_start ?P (pre @ c # cs) i
                      then [takeWhile ?P (drop i (pre @ c # cs))] else [])
      [length (pre @ [c])..<length (pre @ [c]) + length cs]) =
    (if ?P c then re_findall (WORD uni) (dropWhile ?P cs) else re_findall (WORD uni) cs)"
    using Cons.IH [of "pre @ [c]"] unfolding eq ne .
  have here: "takeWhile ?P (drop (length pre) (pre @ c # cs)) = takeWhile ?P (c # cs)"
    by simp
  have "concat (map (\<lambda>i. if run_start ?P (pre @ c # cs) i
                      then [takeWhile ?P (drop i (pre @ c # cs))] else [])
      [length pre..<length pre + length (c # cs)]) =
    (if ?P c \<and> \<not> (pre \<noteq> [] \<and> ?P (last pre)) then [takeWhile ?P (c # cs)] else [])
    @ (if ?P c then re_findall (WORD uni) (dropWhile ?P cs) else re_findall (WORD uni) cs)"
    unfolding upt by (simp only: list.map concat.simps start rest here)
  also have "\<dots> =
    (if pre \<noteq> [] \<and> ?P (last pre)
     then re_findall (WORD uni) (dropWhile ?P (c # cs))
     else re_findall (WORD uni) (c # cs))"
    by (simp add: re_findall_WORD_Cons)
  finally show ?case .
qed

lemma re_findall_WORD_runs: "re_findall (WORD uni) s = word_runs (category_word uni) s"
proof -
  have "word_runs (category_word uni) s = re_findall (WORD uni) s"
    unfolding word_runs_starts using scan_runs [of uni "[]" s] by (simp only: append_Nil list.size add_0 simp_thms if_False)
  then show ?thesis
    by (rule sym)
qed

lemma concat_re_findall_WORD:
  "concat (re_findall (WORD uni) s) = filter (category_word uni) s"
proof (induction s rule: length_induct)
  case (1 s)
  show ?case
  proof (cases s)
    case Nil
    then show ?thesis
      by (simp add: re_findall_WORD_Nil)
  next
    case (Cons c cs)
    let ?P = "category_word uni"
    have "length (dropWhile ?P cs) < length s"
      using Cons by (simp add: length_dropWhile_le le_imp_less_Suc)
    with 1 have "concat (re_findall (WORD uni) (dropWhile ?P cs)) = filter ?P (dropWhile ?P cs)"
      by simp
    moreover from 1 Cons have "concat (re_findall (WORD uni) cs) = filter ?P cs"
      by simp
    moreover have "filter ?P cs = takeWhile ?P cs @ filter ?P (dropWhile ?P cs)"
    proof -
      have "filter ?P (takeWhile ?P cs @ dropWhile ?P cs) =
          filter ?P (takeWhile ?P cs) @ filter ?P (dropWhile ?P cs)"
        by (rule filter_append)
      moreover have "filter ?P (takeWhile ?P cs) = takeWhile ?P cs"
        by (rule filter_True) (auto dest: set_takeWhileD)
      ultimately show ?thesis
        by simp
    qed
    ultimately show ?thesis
      using Cons by (simp add: re_findall_WORD_Cons)
  qed
qed

text \<open>
  C2. For every clean content, \<open>re.findall(r'\w+', ...)\<close> returns all the maximal runs of
  word characters, each once for each place where it occurs, by position in the input;
  together the tokens are the word characters of the input, none lost and none twice.
  The result is a function of the input, the same at every call.
\<close>

theorem tokenizer_maximal_runs:
  "re_findall (WORD uni) s = word_runs (category_word uni) s
   \<and> concat (re_findall (WORD uni) s) = filter (category_word uni) s"
  by (simp add: re_findall_WORD_runs [symmetric] concat_re_findall_WORD)

theorem tokenizer_maximal_runs_witness:
  "re_findall (WORD (\<lambda>c. False)) (str ''ab  c_1 ab!'') = [str ''ab'', str ''c_1'', str ''ab'']"
proof -
  have "word_runs (category_word (\<lambda>c. False)) (str ''ab  c_1 ab!'') =
      [str ''ab'', str ''c_1'', str ''ab'']"
    by code_simp
  with tokenizer_maximal_runs [of "\<lambda>c. False" "str ''ab  c_1 ab!''"] show ?thesis
    by simp
qed

section \<open>The frequency table\<close>

lemma sum_counter_add:
  "sum_list (map snd (counter_add m t)) = sum_list (map snd m) + 1"
  by (induction m t rule: counter_add.induct) auto

lemma keys_counter_add:
  "fst ` set (counter_add m t) = insert t (fst ` set m)"
  by (induction m t rule: counter_add.induct) auto

lemma counts_counter_add:
  "\<forall>x\<in>set m. 1 \<le> snd x \<Longrightarrow> \<forall>x\<in>set (counter_add m t). 1 \<le> snd x"
  by (induction m t rule: counter_add.induct) auto

lemma distinct_counter_add:
  "distinct (map fst m) \<Longrightarrow> distinct (map fst (counter_add m t))"
proof (induction m t rule: counter_add.induct)
  case (1 t)
  then show ?case by simp
next
  case (2 k c kvs t)
  have "k \<notin> fst ` set (counter_add kvs t)" if "k \<noteq> t"
    using that 2 by (simp add: keys_counter_add)
  with 2 show ?case by auto
qed

lemma sum_foldl_counter_add:
  "sum_list (map snd (foldl counter_add m ts)) = sum_list (map snd m) + int (length ts)"
  by (induction ts arbitrary: m) (auto simp: sum_counter_add)

lemma keys_foldl_counter_add:
  "fst ` set (foldl counter_add m ts) = fst ` set m \<union> set ts"
  by (induction ts arbitrary: m) (auto simp: keys_counter_add)

lemma counts_foldl_counter_add:
  "\<forall>x\<in>set m. 1 \<le> snd x \<Longrightarrow> \<forall>x\<in>set (foldl counter_add m ts). 1 \<le> snd x"
  by (induction ts arbitrary: m) (auto dest: counts_counter_add)

lemma distinct_foldl_counter_add:
  "distinct (map fst m) \<Longrightarrow> distinct (map fst (foldl counter_add m ts))"
  by (induction ts arbitrary: m) (auto simp: distinct_counter_add)

lemma sum_Counter: "sum_list (map snd (Counter ts)) = int (length ts)"
  by (simp add: Counter_def sum_foldl_counter_add)

lemma keys_Counter: "fst ` set (Counter ts) = set ts"
  by (simp add: Counter_def keys_foldl_counter_add)

lemma counts_Counter: "x \<in> set (Counter ts) \<Longrightarrow> 1 \<le> snd x"
  using counts_foldl_counter_add [of "[]" ts] by (simp add: Counter_def)

text \<open>The table is a mapping: no token has two entries.\<close>

lemma distinct_Counter: "distinct (map fst (Counter ts))"
  by (simp add: Counter_def distinct_foldl_counter_add)

text \<open>The tokens that \<open>extract_tokens\<close> counts are runs of one or more characters.\<close>

lemma tokens_of_nonempty: "t \<in> set (tokens_of uni content) \<Longrightarrow> t \<noteq> []"
  unfolding tokens_of_def by (rule re_findall_WORD_nonempty)

lemma extract_tokens_table:
  assumes "extract_tokens uni (RegularFile content) = Inr table"
  shows "sum_list (map snd table) = int (length (tokens_of uni content))"
    and "x \<in> set table \<Longrightarrow> fst x \<noteq> [] \<and> 1 \<le> snd x"
proof -
  from assms have table: "table = Counter (tokens_of uni content)"
    by simp
  show "sum_list (map snd table) = int (length (tokens_of uni content))"
    by (simp add: table sum_Counter)
  show "fst x \<noteq> [] \<and> 1 \<le> snd x" if "x \<in> set table"
  proof -
    from that have "fst x \<in> set (tokens_of uni content)"
      unfolding table using keys_Counter [of "tokens_of uni content"] by (metis imageI)
    then have "fst x \<noteq> []"
      by (rule tokens_of_nonempty)
    with that show ?thesis
      by (simp add: table counts_Counter)
  qed
qed

text \<open>
  C3. For a sequence of tokens (a token is a run of one or more word characters, so none
  is empty), the counts of the table built by \<open>Counter\<close> add up to the number of tokens
  in the sequence, every key of the table is a non-empty string, and every count is at
  least 1.
\<close>

theorem frequency_table_invariant:
  assumes "\<forall>t\<in>set ts. t \<noteq> []"
  shows "sum_list (map snd (Counter ts)) = int (length ts)
    \<and> (\<forall>x\<in>set (Counter ts). fst x \<noteq> [] \<and> 1 \<le> snd x)"
proof -
  have "fst x \<noteq> []" if "x \<in> set (Counter ts)" for x
  proof -
    from that have "fst x \<in> set ts"
      using keys_Counter [of ts] by (metis imageI)
    with assms show ?thesis by blast
  qed
  then show ?thesis
    by (simp add: sum_Counter counts_Counter)
qed

theorem frequency_table_invariant_witness:
  "list_all (\<lambda>t. t \<noteq> []) [[97], [98], [97::nat]]
   \<and> sum_list (map snd (Counter [[97], [98], [97]])) = 3
   \<and> list_all (\<lambda>x. fst x \<noteq> [] \<and> 1 \<le> snd x) (Counter [[97], [98], [97]])"
proof -
  have h: "\<forall>t\<in>set [[97], [98], [97::nat]]. t \<noteq> []"
    by simp
  from frequency_table_invariant [OF h] show ?thesis
    by (simp add: list_all_iff)
qed

section \<open>The sorted report\<close>

lemma sorted_items_sorted:
  "sorted_wrt (\<lambda>x y. snd y < snd x \<or> (snd x = snd y \<and> fst x \<le> fst y)) (sorted_items counter)"
proof -
  have "sorted (map (\<lambda>x. (- snd x, fst x)) (sorted_items counter))"
    unfolding sorted_items_def by (rule sorted_sort_key)
  then have "sorted_wrt (\<lambda>x y. (- snd x, fst x) \<le> (- snd y, fst y)) (sorted_items counter)"
    by (simp add: sorted_map)
  then show ?thesis
    by (rule sorted_wrt_mono_rel [rotated]) (auto simp: less_eq_prod_def)
qed

text \<open>The order on strings in which ties are broken: by code point, a proper prefix first.\<close>

lemma pystr_le:
  "[] \<le> (t::pystr)"
  "\<not> a # u \<le> ([]::pystr)"
  "(a # u \<le> b # v) = (a < b \<or> a = b \<and> u \<le> v)" for u v :: pystr
  by simp_all

lemma mset_sorted_items: "mset (sorted_items counter) = mset counter"
  by (simp add: sorted_items_def)

text \<open>
  C4. For every frequency table, of any two entries \<open>(t1, c1)\<close> before \<open>(t2, c2)\<close> in the
  sorted report either \<open>c1 > c2\<close>, or \<open>c1 = c2\<close> and \<open>t1 \<le> t2\<close> in the lexicographic order
  of strings; and the report has exactly the entries of the table, each as often as the
  table has it.
\<close>

theorem sorted_report_order:
  "sorted_wrt (\<lambda>x y. snd y < snd x \<or> (snd x = snd y \<and> fst x \<le> fst y)) (sorted_items counter)
   \<and> mset (sorted_items counter) = mset counter"
  by (simp add: sorted_items_sorted mset_sorted_items)

section \<open>The example of the specification\<close>

text \<open>
  C6. The content \<open>"\x1b[31merror\x1b[0m: error code 42\n"\<close> is cleaned to
  \<open>"error: error code 42\n"\<close>, its tokens are \<open>error, error, code, 42\<close>, the frequency table
  is \<open>{error: 2, code: 1, 42: 1}\<close> (in this order of insertion) and the sorted report is
  \<open>[(error, 2), (42, 1), (code, 1)]\<close>, whatever the Unicode database says beyond ASCII.
\<close>

theorem example_pipeline:
  "strip_ansi (27 # str ''[31merror'' @ 27 # str ''[0m: error code 42'' @ [10])
     = str ''error: error code 42'' @ [10]
   \<and> tokens_of uni (27 # str ''[31merror'' @ 27 # str ''[0m: error code 42'' @ [10])
     = [str ''error'', str ''error'', str ''code'', str ''42'']
   \<and> extract_tokens uni (RegularFile (27 # str ''[31merror'' @ 27 # str ''[0m: error code 42'' @ [10]))
     = Inr [(str ''error'', 2), (str ''code'', 1), (str ''42'', 1)]
   \<and> sorted_items [(str ''error'', 2), (str ''code'', 1), (str ''42'', 1)]
     = [(str ''error'', 2), (str ''42'', 1), (str ''code'', 1)]"
  by (simp add: sorted_items_def Counter_def tokens_of_def WORD_def category_word_def
      strip_ansi_def ANSI_ESCAPE_def str_def re_sub.simps re_findall.simps)

section \<open>Runs of \<open>main\<close>\<close>

text \<open>
  What a statement of the script does depends neither on what was printed before nor on
  what the output file held.
\<close>

lemma io_outcome_return: "io_outcome (io_return x) w (Inr x) [] None"
  by (simp add: io_outcome_def io_return_def)

lemma io_outcome_of: "io_outcome (io_of r) w r [] None"
  by (simp add: io_outcome_def io_of_def)

lemma io_outcome_print:
  "io_outcome (print s) w
     (case print_raises w s of Some e \<Rightarrow> Inl e | None \<Rightarrow> Inr ())
     (case print_raises w s of Some e \<Rightarrow> [] | None \<Rightarrow> s @ [10]) None"
  by (simp add: io_outcome_def print_def split: option.split)

lemma io_outcome_json_dump:
  "io_outcome (json_dump doc) w
     (case output_refused w of Some e \<Rightarrow> Inl e | None \<Rightarrow> Inr ()) []
     (case output_refused w of Some e \<Rightarrow> None | None \<Rightarrow> Some doc)"
  by (simp add: io_outcome_def json_dump_def split: option.split)

lemma io_outcome_bind_Inl:
  "io_outcome m w (Inl e) out doc \<Longrightarrow> io_outcome (io_bind m f) w (Inl e) out doc"
  by (simp add: io_outcome_def io_bind_def)

lemma io_outcome_bind_Inr:
  assumes "io_outcome m w (Inr x) out doc" and "io_outcome (f x) w r out' doc'"
  shows "io_outcome (io_bind m f) w r (out @ out')
    (case doc' of None \<Rightarrow> doc | Some d \<Rightarrow> Some d)"
  unfolding io_outcome_def
proof (intro allI)
  fix s0 a0
  let ?a1 = "case doc of None \<Rightarrow> a0 | Some d \<Rightarrow> Some d"
  from assms(1) have 1: "m (w\<lparr>stdout := s0, tokens_audit := a0\<rparr>) =
      (Inr x, w\<lparr>stdout := s0 @ out, tokens_audit := ?a1\<rparr>)"
    by (simp add: io_outcome_def)
  from assms(2) have 2: "f x (w\<lparr>stdout := s0 @ out, tokens_audit := ?a1\<rparr>) =
      (r, w\<lparr>stdout := (s0 @ out) @ out',
            tokens_audit := (case doc' of None \<Rightarrow> ?a1 | Some d \<Rightarrow> Some d)\<rparr>)"
    unfolding io_outcome_def by blast
  show "io_bind m f (w\<lparr>stdout := s0, tokens_audit := a0\<rparr>) =
      (r, w\<lparr>stdout := s0 @ out @ out',
            tokens_audit := (case (case doc' of None \<Rightarrow> doc | Some d \<Rightarrow> Some d) of
               None \<Rightarrow> a0 | Some d \<Rightarrow> Some d)\<rparr>)"
    by (simp add: io_bind_def 1 2 split: option.split)
qed

lemma steady_bind:
  assumes "\<exists>r out doc. io_outcome m w r out doc"
    and "\<And>x. \<exists>r out doc. io_outcome (f x) w r out doc"
  shows "\<exists>r out doc. io_outcome (io_bind m f) w r out doc"
proof -
  from assms(1) obtain r out doc where m: "io_outcome m w r out doc"
    by blast
  show ?thesis
  proof (cases r)
    case (Inl e)
    with m show ?thesis
      by (blast intro: io_outcome_bind_Inl)
  next
    case (Inr x)
    from assms(2) obtain r' out' doc' where "io_outcome (f x) w r' out' doc'"
      by blast
    with m Inr show ?thesis
      by (blast intro: io_outcome_bind_Inr)
  qed
qed

lemma steady_print: "\<exists>r out doc. io_outcome (print s) w r out doc"
  by (intro exI) (rule io_outcome_print)

lemma steady_return: "\<exists>r out doc. io_outcome (io_return x) w r out doc"
  by (intro exI) (rule io_outcome_return)

lemma steady_of: "\<exists>r out doc. io_outcome (io_of x) w r out doc"
  by (intro exI) (rule io_outcome_of)

lemma steady_json_dump: "\<exists>r out doc. io_outcome (json_dump d) w r out doc"
  by (intro exI) (rule io_outcome_json_dump)

lemma print_items_Cons:
  "print_items (x # xs) = io_bind (print (report_line x)) (\<lambda>_. print_items xs)"
  by (rule ext) (simp add: io_bind_def)

lemma steady_print_items: "\<exists>r out doc. io_outcome (print_items xs) w r out doc"
proof (induction xs)
  case Nil
  have "print_items [] = io_return ()"
    by (rule ext) (simp add: io_return_def)
  then show ?case
    by (simp add: steady_return)
next
  case (Cons x xs)
  show ?case
    unfolding print_items_Cons
    by (rule steady_bind) (rule steady_print Cons)+
qed

lemma steady_main: "\<exists>r out doc. io_outcome (main uni p) w r out doc"
proof -
  let ?end = "\<lambda>n. io_return (n::int)"
  have cong: "\<exists>r out doc. io_outcome (main uni p) w r out doc"
    if "\<And>s0 a0. main uni p (w\<lparr>stdout := s0, tokens_audit := a0\<rparr>) = m (w\<lparr>stdout := s0, tokens_audit := a0\<rparr>)"
      and "\<exists>r out doc. io_outcome m w r out doc" for m
    using that unfolding io_outcome_def by simp
  note steps = steady_bind steady_print_items steady_print steady_return steady_of
    steady_json_dump
  show ?thesis
  proof (cases "samples_exists w")
    case False
    show ?thesis
      by (rule cong [where m = "io_bind (print (str ''Error: samples directory not found at '' @ samples_dir p)) (\<lambda>_. io_return 1)"])
        (simp add: main_def False, intro steps)
  next
    case True
    show ?thesis
    proof (cases "b_txt w")
      case None
      show ?thesis
        by (rule cong [where m = "io_bind (print (str ''Error: '' @ filepath p @ str '' not found'')) (\<lambda>_. io_return 1)"])
          (simp add: main_def True None, intro steps)
    next
      case (Some f)
      show ?thesis
        by (rule cong [where m = "io_bind (print (str ''Extracting tokens from B.txt...'' @ [10])) (\<lambda>_.
             io_bind (io_of (extract_tokens uni f)) (\<lambda>counter.
             let items = sorted_items counter in
             io_bind (print (str ''Found '' @ str_int (int (length counter))
                             @ str '' unique tokens'' @ [10])) (\<lambda>_.
             io_bind (print_items items) (\<lambda>_.
             io_bind (json_dump (output_record items)) (\<lambda>_.
             io_bind (print (10 # str ''Full token list written to '' @ output_file p)) (\<lambda>_.
             io_return 0))))))"])
          (simp add: main_def True Some, unfold Let_def, intro steps)
    qed
  qed
qed


text \<open>
  C7. Two runs in a row: the first leaves the input file as it was, and the second returns
  the same result, prints the same characters and leaves the same document in the output
  file as the first.
\<close>

theorem rerun_identical:
  assumes "main uni p w = (r1, w1)" and "main uni p w1 = (r2, w2)"
  shows "b_txt w1 = b_txt w \<and> r2 = r1
    \<and> stdout w1 = stdout w @ printed w w1
    \<and> stdout w2 = stdout w1 @ printed w1 w2
    \<and> printed w1 w2 = printed w w1
    \<and> tokens_audit w2 = tokens_audit w1"
proof -
  obtain r out doc where o: "io_outcome (main uni p) w r out doc"
    using steady_main by blast
  let ?a1 = "case doc of None \<Rightarrow> tokens_audit w | Some d \<Rightarrow> Some d"
  have "main uni p (w\<lparr>stdout := stdout w, tokens_audit := tokens_audit w\<rparr>) =
      (r, w\<lparr>stdout := stdout w @ out, tokens_audit := ?a1\<rparr>)"
    using o unfolding io_outcome_def by blast
  with assms(1) have 1: "r1 = r" "w1 = w\<lparr>stdout := stdout w @ out, tokens_audit := ?a1\<rparr>"
    by simp_all
  have "main uni p (w\<lparr>stdout := stdout w @ out, tokens_audit := ?a1\<rparr>) =
      (r, w\<lparr>stdout := (stdout w @ out) @ out,
            tokens_audit := (case doc of None \<Rightarrow> ?a1 | Some d \<Rightarrow> Some d)\<rparr>)"
    using o unfolding io_outcome_def by blast
  with assms(2) 1 have 2: "r2 = r"
    "w2 = w\<lparr>stdout := (stdout w @ out) @ out,
            tokens_audit := (case doc of None \<Rightarrow> ?a1 | Some d \<Rightarrow> Some d)\<rparr>"
    by simp_all
  show ?thesis
    by (simp add: 1 2 printed_def split: option.split)
qed

lemma io_bind_eq_Inr:
  "io_bind m f w = (Inr y, w') \<longleftrightarrow> (\<exists>x w1. m w = (Inr x, w1) \<and> f x w1 = (Inr y, w'))"
  by (cases "m w") (auto simp: io_bind_def split: sum.splits)

lemma print_eq_Inr:
  "print s w = (Inr u, w') \<longleftrightarrow>
   print_raises w s = None \<and> w' = w\<lparr>stdout := stdout w @ s @ [10]\<rparr>"
  by (auto simp: print_def split: option.splits)

lemma json_dump_eq_Inr:
  "json_dump doc w = (Inr u, w') \<longleftrightarrow>
   output_refused w = None \<and> w' = w\<lparr>tokens_audit := Some doc\<rparr>"
  by (auto simp: json_dump_def split: option.splits)

lemma print_items_eq_Inr:
  "print_items xs w = (Inr u, w') \<longleftrightarrow>
   list_all (\<lambda>x. print_raises w (report_line x) = None) xs
   \<and> w' = w\<lparr>stdout := stdout w @ concat (map (\<lambda>x. report_line x @ [10]) xs)\<rparr>"
proof (induction xs arbitrary: w u)
  case Nil
  then show ?case
    by auto
next
  case (Cons x xs)
  show ?case
    by (cases "print_raises w (report_line x)") (auto simp: print_def Cons)
qed

lemma main_eq_Inr_0:
  "main uni p w = (Inr 0, w') \<longleftrightarrow>
   samples_exists w \<and>
   (\<exists>content. b_txt w = Some (RegularFile content)
      \<and> print_raises w (str ''Extracting tokens from B.txt...'' @ [10]) = None
      \<and> print_raises w (str ''Found '' @ str_int (int (length (Counter (tokens_of uni content))))
                         @ str '' unique tokens'' @ [10]) = None
      \<and> list_all (\<lambda>x. print_raises w (report_line x) = None)
           (sorted_items (Counter (tokens_of uni content)))
      \<and> output_refused w = None
      \<and> print_raises w (10 # str ''Full token list written to '' @ output_file p) = None
      \<and> w' = w\<lparr>stdout := stdout w
                  @ str ''Extracting tokens from B.txt...'' @ [10] @ [10]
                  @ str ''Found '' @ str_int (int (length (Counter (tokens_of uni content))))
                  @ str '' unique tokens'' @ [10] @ [10]
                  @ concat (map (\<lambda>x. report_line x @ [10])
                      (sorted_items (Counter (tokens_of uni content))))
                  @ [10] @ str ''Full token list written to '' @ output_file p @ [10],
                tokens_audit := Some (output_record (sorted_items (Counter (tokens_of uni content))))\<rparr>)"
proof (cases "samples_exists w")
  case False
  then show ?thesis
    by (simp add: main_def io_bind_eq_Inr io_return_def)
next
  case True
  show ?thesis
  proof (cases "b_txt w")
    case None
    with True show ?thesis
      by (simp add: main_def io_bind_eq_Inr io_return_def)
  next
    case (Some f)
    show ?thesis
    proof (cases f)
      case (RegularFile content)
      with True Some show ?thesis
        by (auto simp: main_def Let_def io_bind_eq_Inr io_return_def io_of_def print_eq_Inr
            print_items_eq_Inr json_dump_eq_Inr)
    next
      case Directory
      with True Some show ?thesis
        by (simp add: main_def Let_def io_bind_eq_Inr io_return_def io_of_def)
    next
      case (Unreadable e)
      with True Some show ?thesis
        by (simp add: main_def Let_def io_bind_eq_Inr io_return_def io_of_def)
    qed
  qed
qed



lemma length_Counter: "length (Counter ts) = card (set ts)"
proof -
  have "length (Counter ts) = length (map fst (Counter ts))"
    by simp
  also have "\<dots> = card (set (map fst (Counter ts)))"
    by (rule distinct_card [symmetric]) (rule distinct_Counter)
  also have "\<dots> = card (set ts)"
    by (simp add: keys_Counter)
  finally show ?thesis .
qed

text \<open>
  C8. On success, \<open>main\<close> has printed a header line that names the file \<open>B.txt\<close>, a blank
  line, a line with the number of distinct tokens, a blank line, and then one line for each
  pair of the sorted report, in its order: the count in decimal, padded with spaces on the
  left to at least 4 characters, then \<open>x\<close>, two spaces and the token. A blank line and the
  line that names the output file follow.
\<close>

theorem report_printed:
  assumes "main uni p w = (Inr 0, w')"
  shows "\<exists>content. b_txt w = Some (RegularFile content) \<and>
     stdout w' = stdout w
       @ str ''Extracting tokens from B.txt...'' @ [10] @ [10]
       @ str ''Found '' @ str_int (int (card (set (tokens_of uni content))))
       @ str '' unique tokens'' @ [10] @ [10]
       @ concat (map (\<lambda>x. replicate (4 - length (str_int (snd x))) 32 @ str_int (snd x)
                           @ str ''x  '' @ fst x @ [10])
           (sorted_items (Counter (tokens_of uni content))))
       @ [10] @ str ''Full token list written to '' @ output_file p @ [10]"
proof -
  from assms obtain content where "b_txt w = Some (RegularFile content)"
    and "w' = w\<lparr>stdout := stdout w
                  @ str ''Extracting tokens from B.txt...'' @ [10] @ [10]
                  @ str ''Found '' @ str_int (int (length (Counter (tokens_of uni content))))
                  @ str '' unique tokens'' @ [10] @ [10]
                  @ concat (map (\<lambda>x. report_line x @ [10])
                      (sorted_items (Counter (tokens_of uni content))))
                  @ [10] @ str ''Full token list written to '' @ output_file p @ [10],
                tokens_audit := Some (output_record (sorted_items (Counter (tokens_of uni content))))\<rparr>"
    unfolding main_eq_Inr_0 by blast
  then show ?thesis
    by (simp add: report_line_def format_d_def length_Counter)
qed

theorem report_printed_witness:
  "fst (main (\<lambda>c. False) ex_paths (ex_world (Some (RegularFile (str ''b a b''))))) = Inr 0
   \<and> stdout (snd (main (\<lambda>c. False) ex_paths (ex_world (Some (RegularFile (str ''b a b''))))))
      = str ''Extracting tokens from B.txt...'' @ [10, 10]
         @ str ''Found 2 unique tokens'' @ [10, 10]
         @ str ''   2x  b'' @ [10] @ str ''   1x  a'' @ [10, 10]
         @ str ''Full token list written to samples/tokens-audit.json'' @ [10]"
proof -
  let ?w = "ex_world (Some (RegularFile (str ''b a b'')))"
  let ?m = "main (\<lambda>c. False) ex_paths ?w"
  have r: "fst ?m = Inr 0"
    by code_simp
  then have run: "?m = (Inr 0, snd ?m)"
    by (simp add: prod_eq_iff)
  have out: "stdout (snd ?m) = str ''Extracting tokens from B.txt...'' @ [10, 10]
         @ str ''Found 2 unique tokens'' @ [10, 10]
         @ str ''   2x  b'' @ [10] @ str ''   1x  a'' @ [10, 10]
         @ str ''Full token list written to samples/tokens-audit.json'' @ [10]"
    by code_simp
  from report_printed [OF run] r out show ?thesis
    by blast
qed

theorem rerun_identical_witness:
  "fst (main (\<lambda>c. False) ex_paths (ex_world (Some (RegularFile (str ''b a b''))))) = Inr 0
   \<and> fst (main (\<lambda>c. False) ex_paths
         (snd (main (\<lambda>c. False) ex_paths (ex_world (Some (RegularFile (str ''b a b''))))))) = Inr 0
   \<and> printed (snd (main (\<lambda>c. False) ex_paths (ex_world (Some (RegularFile (str ''b a b''))))))
        (snd (main (\<lambda>c. False) ex_paths
          (snd (main (\<lambda>c. False) ex_paths (ex_world (Some (RegularFile (str ''b a b''))))))))
      = printed (ex_world (Some (RegularFile (str ''b a b''))))
          (snd (main (\<lambda>c. False) ex_paths (ex_world (Some (RegularFile (str ''b a b''))))))
   \<and> tokens_audit (snd (main (\<lambda>c. False) ex_paths
          (snd (main (\<lambda>c. False) ex_paths (ex_world (Some (RegularFile (str ''b a b''))))))))
      = tokens_audit (snd (main (\<lambda>c. False) ex_paths (ex_world (Some (RegularFile (str ''b a b''))))))"
proof -
  let ?w = "ex_world (Some (RegularFile (str ''b a b'')))"
  obtain r1 w1 where a: "main (\<lambda>c. False) ex_paths ?w = (r1, w1)"
    by (cases "main (\<lambda>c. False) ex_paths ?w")
  obtain r2 w2 where b: "main (\<lambda>c. False) ex_paths w1 = (r2, w2)"
    by (cases "main (\<lambda>c. False) ex_paths w1")
  have "fst (main (\<lambda>c. False) ex_paths ?w) = Inr 0"
    by code_simp
  with rerun_identical [OF a b] a b show ?thesis
    by simp
qed













text \<open>
  \<open>print\<close> is another statement that can raise: a token that standard output cannot encode
  ends the run in the loop over the items, before the output file is opened.
\<close>

lemma print_refused_example:
  "fst (main (\<lambda>c. c = 233) ex_paths
      ((ex_world (Some (RegularFile [233])))\<lparr>print_raises := ascii_only\<rparr>)) = Inl UnicodeEncodeError
   \<and> stdout (snd (main (\<lambda>c. c = 233) ex_paths
      ((ex_world (Some (RegularFile [233])))\<lparr>print_raises := ascii_only\<rparr>)))
      = str ''Extracting tokens from B.txt...'' @ [10, 10] @ str ''Found 1 unique tokens'' @ [10, 10]
   \<and> tokens_audit (snd (main (\<lambda>c. c = 233) ex_paths
      ((ex_world (Some (RegularFile [233])))\<lparr>print_raises := ascii_only\<rparr>))) = None"
  by code_simp

end
